theory Spec2Isabelle
  imports Main
begin

section \<open>The HL7 message model (main.go)\<close>

text \<open>
  Go strings are byte sequences; they are modelled as \<open>string\<close> (lists of 8-bit
  characters). The separators of main.go are one-byte strings and are modelled as
  characters. A Go slice is modelled as a list: a nil slice and an empty slice are both
  the empty list.
\<close>

definition SegmentSeparator :: char where
  "SegmentSeparator = CHR 0x0D"

definition FieldSeparator :: char where
  "FieldSeparator = CHR ''|''"

record Segment =
  Type :: string
  Fields :: "string list"

record HL7Message =
  Segments :: "Segment list"

definition NewHL7Message :: HL7Message where
  "NewHL7Message = \<lparr>Segments = []\<rparr>"

text \<open>\<open>AddSegment\<close> mutates the receiver; the model returns the updated message.\<close>

definition AddSegment :: "HL7Message \<Rightarrow> string \<Rightarrow> string list \<Rightarrow> HL7Message" where
  "AddSegment m segmentType fieldList =
     m\<lparr>Segments := Segments m @ [\<lparr>Type = segmentType, Fields = fieldList\<rparr>]\<rparr>"

subsection \<open>GenerateMessage\<close>

text \<open>
  The \<open>strings.Builder\<close> is the text written so far; \<open>WriteString\<close> appends to it.
  The two nested \<open>for ... range\<close> loops are folds over the segments and over the fields.
\<close>

definition WriteString :: "string \<Rightarrow> string \<Rightarrow> string" where
  "WriteString messageBuilder s = messageBuilder @ s"

definition writeSegment :: "Segment \<Rightarrow> string \<Rightarrow> string" where
  "writeSegment segment messageBuilder =
     WriteString
       (fold (\<lambda>field b. WriteString (WriteString b [FieldSeparator]) field)
          (Fields segment)
          (WriteString messageBuilder (Type segment)))
       [SegmentSeparator]"

definition GenerateMessage :: "HL7Message \<Rightarrow> string" where
  "GenerateMessage m = fold writeSegment (Segments m) []"

section \<open>The Go library functions ParseHL7Message calls\<close>

datatype error =
    EOF
  | ErrTooLong
  | ErrNegativeAdvance
  | ErrAdvanceTooFar
  | ErrBadReadCount
  | ErrFinalToken
  | ErrNoProgress
  | InvalidSegmentFormat
  | PanicTooManyEmptyTokens

text \<open>
  \<open>strings.Index\<close> for a one-byte separator: the index of its first occurrence, \<open>None\<close>
  where Go returns \<open>-1\<close>.
\<close>

primrec Index :: "string \<Rightarrow> char \<Rightarrow> nat option" where
  "Index [] sep = None"
| "Index (x # xs) sep = (if x = sep then Some 0 else map_option Suc (Index xs sep))"

lemma Index_Some_less: "Index s sep = Some m \<Longrightarrow> m < length s"
  by (induction s arbitrary: m) (auto split: if_splits)

text \<open>
  \<open>strings.Split(s, sep)\<close> for a one-byte separator: the loop of \<open>genSplit\<close> cuts \<open>s\<close> at
  each occurrence of the separator and ends with the rest of \<open>s\<close>.
\<close>

function Split :: "string \<Rightarrow> char \<Rightarrow> string list" where
  "Split s sep =
     (case Index s sep of
        None \<Rightarrow> [s]
      | Some m \<Rightarrow> take m s # Split (drop (m + 1) s) sep)"
  by pat_completeness auto
termination
  by (relation "measure (\<lambda>(s, sep). length s)") (auto dest: Index_Some_less)

declare Split.simps [simp del]

subsection \<open>bufio.Scanner over a strings.Reader\<close>

definition MaxScanTokenSize :: nat where
  "MaxScanTokenSize = 64 * 1024"

definition startBufSize :: nat where
  "startBufSize = 4096"

definition maxConsecutiveEmptyReads :: nat where
  "maxConsecutiveEmptyReads = 100"

text \<open>
  The largest \<open>int\<close> of the 64-bit builds. It occurs only in the overflow guard of the
  buffer growth; on the 32-bit builds it is \<open>2 ^ 31 - 1\<close>, and the guard is subsumed by
  the comparison with the maximal token size either way.
\<close>

definition maxInt :: nat where
  "maxInt = 2 ^ 63 - 1"

text \<open>
  The scanner's fields. \<open>s_r\<close> is the state of the \<open>strings.Reader\<close>: the part of the
  input not read yet. \<open>s_token\<close> is \<open>None\<close> for a nil token. The split function and the
  maximal token size are never changed by ParseHL7Message (no call of \<open>Buffer\<close>), so
  they are the constants \<open>segmentSplit\<close> and \<open>MaxScanTokenSize\<close>.
\<close>

record Scanner =
  s_r :: string
  s_token :: "string option"
  s_buf :: string
  s_start :: nat
  s_end :: nat
  s_err :: "error option"
  s_empties :: nat
  s_scanCalled :: bool
  s_done :: bool

definition NewScanner :: "string \<Rightarrow> Scanner" where
  "NewScanner input =
     \<lparr>s_r = input, s_token = None, s_buf = [], s_start = 0, s_end = 0, s_err = None,
      s_empties = 0, s_scanCalled = False, s_done = False\<rparr>"

definition has_err :: "Scanner \<Rightarrow> bool" where
  "has_err s = (case s_err s of None \<Rightarrow> False | Some e \<Rightarrow> True)"

definition Err :: "Scanner \<Rightarrow> error option" where
  "Err s = (if s_err s = Some EOF then None else s_err s)"

definition Text :: "Scanner \<Rightarrow> string" where
  "Text s = (case s_token s of None \<Rightarrow> [] | Some t \<Rightarrow> t)"

definition setErr :: "error \<Rightarrow> Scanner \<Rightarrow> Scanner" where
  "setErr e s = (if s_err s = None \<or> s_err s = Some EOF then s\<lparr>s_err := Some e\<rparr> else s)"

definition advance :: "int \<Rightarrow> Scanner \<Rightarrow> bool \<times> Scanner" where
  "advance n s =
     (if n < 0 then (False, setErr ErrNegativeAdvance s)
      else if int (s_end s) - int (s_start s) < n then (False, setErr ErrAdvanceTooFar s)
      else (True, s\<lparr>s_start := s_start s + nat n\<rparr>))"

text \<open>
  The split function ParseHL7Message installs (main.go, lines 88 to 99): it returns the
  advance, the token (\<open>None\<close> for nil) and the error (always nil).
\<close>

definition segmentSplit :: "string \<Rightarrow> bool \<Rightarrow> int \<times> string option \<times> error option" where
  "segmentSplit data atEOF =
     (if atEOF \<and> length data = 0 then (0, None, None)
      else
        (case Index data SegmentSeparator of
           Some i \<Rightarrow> (int i + 1, Some (take i data), None)
         | None \<Rightarrow> if atEOF then (int (length data), Some data, None) else (0, None, None)))"

text \<open>
  \<open>strings.Reader.Read\<close> into a slice of \<open>k\<close> bytes: the count, the error, the bytes
  copied and the reader afterwards.
\<close>

definition Read :: "string \<Rightarrow> nat \<Rightarrow> nat \<times> error option \<times> string \<times> string" where
  "Read r k =
     (if r = [] then (0, Some EOF, [], r)
      else (min k (length r), None, take (min k (length r)) r, drop (min k (length r)) r))"

text \<open>The built-in \<open>copy(dst, src)\<close>: the destination afterwards.\<close>

definition copy :: "string \<Rightarrow> string \<Rightarrow> string" where
  "copy dst src = take (length dst) src @ drop (length src) dst"

text \<open>The slice \<open>s.buf[s.start:s.end]\<close>.\<close>

definition window :: "Scanner \<Rightarrow> string" where
  "window s = take (s_end s - s_start s) (drop (s_start s) (s_buf s))"

text \<open>
  The first part of an iteration of the loop of \<open>Scan\<close>: try to get a token from the
  buffer. \<open>Again\<close> means that the iteration goes on (to read more data).
\<close>

datatype scan_result = Return bool Scanner | Panic | Again Scanner

definition tryToken :: "Scanner \<Rightarrow> scan_result" where
  "tryToken s =
     (if s_start s < s_end s \<or> has_err s then
        (case segmentSplit (window s) (has_err s) of
           (adv, tok, err) \<Rightarrow>
             (case err of
                Some e \<Rightarrow>
                  if e = ErrFinalToken
                  then Return (tok \<noteq> None) (s\<lparr>s_token := tok, s_done := True\<rparr>)
                  else Return False (setErr e s)
              | None \<Rightarrow>
                  (case advance adv s of
                     (ok, s1) \<Rightarrow>
                       if ok then
                         (let s2 = s1\<lparr>s_token := tok\<rparr> in
                          if tok \<noteq> None then
                            (if s_err s2 = None \<or> 0 < adv
                             then Return True (s2\<lparr>s_empties := 0\<rparr>)
                             else
                               (let s3 = s2\<lparr>s_empties := s_empties s2 + 1\<rparr> in
                                if maxConsecutiveEmptyReads < s_empties s3 then Panic
                                else Return True s3))
                          else Again s2)
                       else Return False s1)))
      else Again s)"

text \<open>The inner loop of \<open>Scan\<close> that reads from the reader into \<open>s.buf[s.end:]\<close>.\<close>

function readLoop :: "nat \<Rightarrow> Scanner \<Rightarrow> Scanner" where
  "readLoop loop s =
     (case Read (s_r s) (length (s_buf s) - s_end s) of
        (n, err, bytes, r') \<Rightarrow>
          (let s0 = s\<lparr>s_r := r',
                      s_buf := take (s_end s) (s_buf s) @ bytes @ drop (s_end s + n) (s_buf s)\<rparr>
           in
           if length (s_buf s0) - s_end s0 < n then setErr ErrBadReadCount s0
           else
             (let s1 = s0\<lparr>s_end := s_end s0 + n\<rparr> in
              case err of
                Some e \<Rightarrow> setErr e s1
              | None \<Rightarrow>
                  if 0 < n then s1\<lparr>s_empties := 0\<rparr>
                  else if maxConsecutiveEmptyReads < loop + 1 then setErr ErrNoProgress s1
                  else readLoop (loop + 1) s1)))"
  by pat_completeness auto
termination
  by (relation "measure (\<lambda>(loop, s). (maxConsecutiveEmptyReads + 1) - loop)") auto

declare readLoop.simps [simp del]

text \<open>Moving the data to the beginning of the buffer, and growing the buffer.\<close>

definition shift :: "Scanner \<Rightarrow> Scanner" where
  "shift s = s\<lparr>s_buf := copy (s_buf s) (window s), s_end := s_end s - s_start s, s_start := 0\<rparr>"

definition grow :: "Scanner \<Rightarrow> Scanner" where
  "grow s =
     (let newSize = length (s_buf s) * 2;
          newSize = (if newSize = 0 then startBufSize else newSize);
          newSize = min newSize MaxScanTokenSize;
          newBuf = replicate newSize (CHR 0x00)
      in s\<lparr>s_buf := copy newBuf (window s), s_end := s_end s - s_start s, s_start := 0\<rparr>)"

text \<open>
  The second part of an iteration: stop at an error, make room, read. \<open>Again\<close> means
  that the loop of \<open>Scan\<close> starts over.
\<close>

definition fillBuffer :: "Scanner \<Rightarrow> scan_result" where
  "fillBuffer s =
     (if has_err s then Return False (s\<lparr>s_start := 0, s_end := 0\<rparr>)
      else
        (let s1 = (if 0 < s_start s \<and>
                      (s_end s = length (s_buf s) \<or> length (s_buf s) div 2 < s_start s)
                   then shift s else s)
         in
         if s_end s1 = length (s_buf s1) then
           (if MaxScanTokenSize \<le> length (s_buf s1) \<or> maxInt div 2 < length (s_buf s1)
            then Return False (setErr ErrTooLong s1)
            else Again (readLoop 0 (grow s1)))
         else Again (readLoop 0 s1)))"

text \<open>Termination of the loop of \<open>Scan\<close>: an iteration that starts over has read input
  or has set the error.\<close>

definition unread :: "Scanner \<Rightarrow> nat" where
  "unread s = (case s_err s of None \<Rightarrow> 1 + length (s_r s) | Some e \<Rightarrow> 0)"

lemma tryToken_Again_unread: "tryToken s = Again s1 \<Longrightarrow> unread s1 = unread s"
  by (auto simp: tryToken_def advance_def unread_def Let_def
      split: if_splits prod.splits option.splits)

lemma readLoop_unread:
  "s_err s = None \<Longrightarrow> unread (readLoop loop s) < unread s"
proof (induction loop s rule: readLoop.induct)
  case (1 loop s)
  have keep: "s\<lparr>s_r := s_r s, s_buf := take (s_end s) (s_buf s) @ drop (s_end s) (s_buf s),
      s_end := s_end s\<rparr> = s"
    by simp
  show ?case
  proof (cases "s_r s = []")
    case True
    then show ?thesis
      using "1.prems" by (simp add: readLoop.simps [of loop s] Read_def setErr_def unread_def)
  next
    case False
    show ?thesis
    proof (cases "0 < min (length (s_buf s) - s_end s) (length (s_r s))")
      case True
      then show ?thesis
        using False "1.prems"
        by (simp add: readLoop.simps [of loop s] Read_def setErr_def unread_def Let_def)
    next
      case zero: False
      show ?thesis
      proof (cases "maxConsecutiveEmptyReads < loop + 1")
        case True
        then show ?thesis
          using False zero "1.prems"
          by (simp add: readLoop.simps [of loop s] Read_def setErr_def unread_def Let_def)
      next
        case more: False
        have "unread (readLoop (loop + 1) s) < unread s"
          by (rule "1.IH" [where x = 0 and y = "(None, [], s_r s)" and xa = None
                and ya = "([], s_r s)" and xb = "[]" and yb = "s_r s" and xc = s and xba = s])
            (use "1.prems" False zero more in \<open>auto simp: Read_def\<close>)
        moreover have "readLoop loop s = readLoop (loop + 1) s"
          using False zero more by (simp add: readLoop.simps [of loop s] Read_def Let_def)
        ultimately show ?thesis by simp
      qed
    qed
  qed
qed

lemma fillBuffer_Again_unread: "fillBuffer s = Again s2 \<Longrightarrow> unread s2 < unread s"
proof -
  assume a: "fillBuffer s = Again s2"
  have e: "s_err s = None"
    using a by (auto simp: fillBuffer_def has_err_def split: option.splits)
  have u1: "unread (shift s) = unread s" "unread (grow s) = unread s"
    "unread (grow (shift s)) = unread s"
    by (simp_all add: shift_def grow_def unread_def Let_def split: option.splits)
  have e1: "s_err (shift s) = None" "s_err (grow s) = None" "s_err (grow (shift s)) = None"
    using e by (simp_all add: shift_def grow_def Let_def)
  from a e show ?thesis
    using readLoop_unread [OF e, of 0] readLoop_unread [OF e1(1), of 0]
      readLoop_unread [OF e1(2), of 0] readLoop_unread [OF e1(3), of 0] u1
    by (auto simp: fillBuffer_def has_err_def Let_def split: if_splits)
qed

function scanLoop :: "Scanner \<Rightarrow> (bool \<times> Scanner) option" where
  "scanLoop s =
     (case tryToken s of
        Return ok s1 \<Rightarrow> Some (ok, s1)
      | Panic \<Rightarrow> None
      | Again s1 \<Rightarrow>
          (case fillBuffer s1 of
             Return ok s2 \<Rightarrow> Some (ok, s2)
           | Panic \<Rightarrow> None
           | Again s2 \<Rightarrow> scanLoop s2))"
  by pat_completeness auto
termination
  by (relation "measure unread")
    (auto dest!: tryToken_Again_unread fillBuffer_Again_unread)

declare scanLoop.simps [simp del]

text \<open>\<open>Scan\<close>: \<open>None\<close> is the panic, otherwise the result and the scanner afterwards.\<close>

definition Scan :: "Scanner \<Rightarrow> (bool \<times> Scanner) option" where
  "Scan s = (if s_done s then Some (False, s) else scanLoop (s\<lparr>s_scanCalled := True\<rparr>))"

section \<open>ParseHL7Message\<close>

text \<open>
  Termination of the loop of ParseHL7Message: a call of \<open>Scan\<close> that delivers a token
  has consumed at least one byte of the input that was buffered or unread.
\<close>

definition pending :: "Scanner \<Rightarrow> nat" where
  "pending s = (s_end s - s_start s) + length (s_r s)"

lemma segmentSplit_no_err: "segmentSplit d e = (adv, tok, err) \<Longrightarrow> err = None"
  by (auto simp: segmentSplit_def split: if_splits option.splits)

lemma segmentSplit_token_advance:
  "segmentSplit d e = (adv, Some t, err) \<Longrightarrow> 0 < adv"
  by (auto simp: segmentSplit_def split: if_splits option.splits)

lemma tryToken_Again_pending: "tryToken s = Again s1 \<Longrightarrow> pending s1 \<le> pending s"
  by (auto simp: tryToken_def advance_def pending_def Let_def
      split: if_splits prod.splits option.splits)

lemma tryToken_Return_pending: "tryToken s = Return True s1 \<Longrightarrow> pending s1 < pending s"
  by (auto simp: tryToken_def advance_def pending_def Let_def
      dest: segmentSplit_no_err segmentSplit_token_advance
      split: if_splits prod.splits option.splits)

lemma readLoop_pending: "pending (readLoop loop s) \<le> pending s"
proof (induction loop s rule: readLoop.induct)
  case (1 loop s)
  show ?case
  proof (cases "s_r s = []")
    case True
    then show ?thesis
      by (simp add: readLoop.simps [of loop s] Read_def setErr_def pending_def Let_def)
  next
    case False
    show ?thesis
    proof (cases "0 < min (length (s_buf s) - s_end s) (length (s_r s))")
      case True
      then show ?thesis
        using False
        by (simp add: readLoop.simps [of loop s] Read_def setErr_def pending_def Let_def)
    next
      case zero: False
      show ?thesis
      proof (cases "maxConsecutiveEmptyReads < loop + 1")
        case True
        then show ?thesis
          using False zero
          by (simp add: readLoop.simps [of loop s] Read_def setErr_def pending_def Let_def)
      next
        case more: False
        have "pending (readLoop (loop + 1) s) \<le> pending s"
          by (rule "1.IH" [where x = 0 and y = "(None, [], s_r s)" and xa = None
                and ya = "([], s_r s)" and xb = "[]" and yb = "s_r s" and xc = s and xba = s])
            (use False zero more in \<open>auto simp: Read_def\<close>)
        moreover have "readLoop loop s = readLoop (loop + 1) s"
          using False zero more by (simp add: readLoop.simps [of loop s] Read_def Let_def)
        ultimately show ?thesis by simp
      qed
    qed
  qed
qed

lemma shift_pending: "pending (shift s) = pending s"
  by (simp add: shift_def pending_def)

lemma grow_pending: "pending (grow s) = pending s"
  by (simp add: grow_def pending_def Let_def)

lemma fillBuffer_Again_pending: "fillBuffer s = Again s2 \<Longrightarrow> pending s2 \<le> pending s"
  using readLoop_pending [of 0 s] readLoop_pending [of 0 "shift s"]
    readLoop_pending [of 0 "grow s"] readLoop_pending [of 0 "grow (shift s)"]
  by (auto simp: fillBuffer_def Let_def shift_pending grow_pending split: if_splits)

lemma fillBuffer_Return: "fillBuffer s = Return ok s2 \<Longrightarrow> ok = False"
  by (auto simp: fillBuffer_def Let_def split: if_splits)

lemma scanLoop_pending: "scanLoop s = Some (True, s') \<Longrightarrow> pending s' < pending s"
proof (induction s rule: scanLoop.induct)
  case (1 s)
  show ?case
  proof (cases "tryToken s")
    case (Return ok s1)
    then show ?thesis
      using "1.prems" tryToken_Return_pending [of s s']
      by (simp add: scanLoop.simps [of s])
  next
    case Panic
    then show ?thesis
      using "1.prems" by (simp add: scanLoop.simps [of s])
  next
    case a1: (Again s1)
    show ?thesis
    proof (cases "fillBuffer s1")
      case (Return ok s2)
      then show ?thesis
        using "1.prems" a1 fillBuffer_Return [of s1 ok s2]
        by (simp add: scanLoop.simps [of s])
    next
      case Panic
      then show ?thesis
        using "1.prems" a1 by (simp add: scanLoop.simps [of s])
    next
      case a2: (Again s2)
      have "scanLoop s2 = Some (True, s')"
        using "1.prems" a1 a2 by (simp add: scanLoop.simps [of s])
      then have "pending s' < pending s2"
        using "1.IH" [OF a1 a2] by simp
      then show ?thesis
        using tryToken_Again_pending [OF a1] fillBuffer_Again_pending [OF a2] by simp
    qed
  qed
qed

lemma Scan_pending: "Scan s = Some (True, s') \<Longrightarrow> pending s' < pending s"
  using scanLoop_pending [of "s\<lparr>s_scanCalled := True\<rparr>" s']
  by (auto simp: Scan_def pending_def split: if_splits)

text \<open>
  The loop \<open>for scanner.Scan() { ... }\<close>: the scanner and the message after the loop, or
  the error the loop returns with. \<open>fields[0]\<close> and \<open>fields[1:]\<close> are guarded by the
  check of the length.
\<close>

function parseLoop :: "Scanner \<Rightarrow> HL7Message \<Rightarrow> error + (Scanner \<times> HL7Message)" where
  "parseLoop scanner message =
     (case Scan scanner of
        None \<Rightarrow> Inl PanicTooManyEmptyTokens
      | Some (ok, scanner1) \<Rightarrow>
          if ok then
            (let segmentStr = Text scanner1 in
             if length segmentStr = 0 then parseLoop scanner1 message
             else
               (let fields = Split segmentStr FieldSeparator in
                if length fields < 1 then Inl InvalidSegmentFormat
                else
                  parseLoop scanner1
                    (message\<lparr>Segments := Segments message @
                       [\<lparr>Type = fields ! 0, Fields = drop 1 fields\<rparr>]\<rparr>)))
          else Inr (scanner1, message))"
  by pat_completeness auto
termination
  by (relation "measure (\<lambda>(scanner, message). pending scanner)")
    (auto dest: Scan_pending)

declare parseLoop.simps [simp del]

definition ParseHL7Message :: "string \<Rightarrow> error + HL7Message" where
  "ParseHL7Message messageStr =
     (case parseLoop (NewScanner messageStr) NewHL7Message of
        Inl e \<Rightarrow> Inl e
      | Inr (scanner, message) \<Rightarrow>
          (case Err scanner of
             Some e \<Rightarrow> Inl e
           | None \<Rightarrow> Inr message))"

section \<open>The text of a message, as the specification words it\<close>

text \<open>
  The text of one segment without its terminator: the type, then the field separator and
  the field for each field.
\<close>

definition segmentText :: "Segment \<Rightarrow> string" where
  "segmentText segment =
     Type segment @ concat (map (\<lambda>field. FieldSeparator # field) (Fields segment))"

definition messageText :: "HL7Message \<Rightarrow> string" where
  "messageText m =
     concat (map (\<lambda>segment. segmentText segment @ [SegmentSeparator]) (Segments m))"

lemma fold_fields:
  "fold (\<lambda>field b. WriteString (WriteString b [FieldSeparator]) field) fs acc =
     acc @ concat (map (\<lambda>field. FieldSeparator # field) fs)"
  by (induction fs arbitrary: acc) (simp_all add: WriteString_def)

lemma writeSegment_text:
  "writeSegment segment acc = acc @ segmentText segment @ [SegmentSeparator]"
  unfolding writeSegment_def segmentText_def fold_fields by (simp add: WriteString_def)

lemma fold_writeSegment:
  "fold writeSegment segs acc =
     acc @ concat (map (\<lambda>segment. segmentText segment @ [SegmentSeparator]) segs)"
  by (induction segs arbitrary: acc) (simp_all add: writeSegment_text)

lemma GenerateMessage_text: "GenerateMessage m = messageText m"
  by (simp add: GenerateMessage_def messageText_def fold_writeSegment)

section \<open>What one call of Scan does\<close>

text \<open>
  The invariant of the scanner between the calls of ParseHL7Message: the window is inside
  the buffer, the buffer is not larger than the maximal token size, and the only error
  recorded is the end of the input, once the reader is empty; it is recorded by a read
  into a buffer that had room.
\<close>

definition scanner_ok :: "Scanner \<Rightarrow> bool" where
  "scanner_ok s \<longleftrightarrow>
     s_start s \<le> s_end s \<and> s_end s \<le> length (s_buf s) \<and>
     length (s_buf s) \<le> MaxScanTokenSize \<and> \<not> s_done s \<and>
     (s_err s = None \<or>
      s_err s = Some EOF \<and> s_r s = [] \<and> s_end s < length (s_buf s))"

lemma NewScanner_ok: "scanner_ok (NewScanner input)"
  by (simp add: scanner_ok_def NewScanner_def)

lemma window_NewScanner: "window (NewScanner input) = []" "s_r (NewScanner input) = input"
  by (simp_all add: window_def NewScanner_def)

lemma length_window: "scanner_ok s \<Longrightarrow> length (window s) = s_end s - s_start s"
  by (auto simp: scanner_ok_def window_def)

lemma Index_None_iff: "Index s sep = None \<longleftrightarrow> sep \<notin> set s"
  by (induction s) auto

lemma Index_Some_nth: "Index s sep = Some i \<Longrightarrow> s ! i = sep \<and> sep \<notin> set (take i s)"
  by (induction s arbitrary: i) (auto split: if_splits)

lemma tryToken_found:
  assumes ok: "scanner_ok s" and i: "Index (window s) SegmentSeparator = Some i"
  shows "tryToken s = Return True
    (s\<lparr>s_start := s_start s + (i + 1), s_token := Some (take i (window s)), s_empties := 0\<rparr>)"
proof -
  have il: "i < s_end s - s_start s"
    using Index_Some_less [OF i] length_window [OF ok] by simp
  then have w: "window s \<noteq> []" "s_start s < s_end s"
    using length_window [OF ok] by auto
  have sp: "segmentSplit (window s) (has_err s) = (int i + 1, Some (take i (window s)), None)"
    using w i by (simp add: segmentSplit_def)
  have adv: "advance (int i + 1) s = (True, s\<lparr>s_start := s_start s + (i + 1)\<rparr>)"
    using il by (simp add: advance_def nat_add_distrib)
  show ?thesis
    using w by (simp add: tryToken_def sp adv)
qed

lemma tryToken_final:
  assumes ok: "scanner_ok s" and i: "Index (window s) SegmentSeparator = None"
    and w: "window s \<noteq> []" and e: "s_err s = Some EOF"
  shows "tryToken s = Return True
    (s\<lparr>s_start := s_end s, s_token := Some (window s), s_empties := 0\<rparr>)"
proof -
  have h: "has_err s"
    using e by (simp add: has_err_def)
  have sp: "segmentSplit (window s) True = (int (length (window s)), Some (window s), None)"
    using w i by (simp add: segmentSplit_def)
  have "s_start s \<le> s_end s"
    using ok by (simp add: scanner_ok_def)
  then have "s_start s + nat (int (s_end s) - int (s_start s)) = s_end s"
    by arith
  then have adv: "advance (int (length (window s))) s = (True, s\<lparr>s_start := s_end s\<rparr>)"
    using length_window [OF ok] ok by (simp add: advance_def scanner_ok_def)
  have pos: "0 < length (window s)"
    using w by simp
  show ?thesis
    using h pos by (simp add: tryToken_def sp adv del: length_greater_0_conv)
qed

lemma tryToken_none:
  assumes ok: "scanner_ok s" and i: "Index (window s) SegmentSeparator = None"
    and w: "s_err s = None \<or> window s = []"
  shows "\<exists>tk. tryToken s = Again (s\<lparr>s_token := tk\<rparr>)"
proof (cases "s_start s < s_end s \<or> has_err s")
  case False
  have "s = s\<lparr>s_token := s_token s\<rparr>"
    by simp
  then show ?thesis
    using False by (metis tryToken_def)
next
  case True
  have sp: "segmentSplit (window s) (has_err s) = (0, None, None)"
    using w i by (auto simp: segmentSplit_def has_err_def)
  have adv: "advance 0 s = (True, s)"
    using ok by (simp add: advance_def scanner_ok_def)
  show ?thesis
    using True by (intro exI [of _ None]) (simp add: tryToken_def sp adv)
qed

lemma window_advance:
  "k \<le> s_end s - s_start s \<Longrightarrow>
   window (s\<lparr>s_start := s_start s + k, s_token := tk, s_empties := e\<rparr>) = drop k (window s)"
  by (simp add: window_def drop_take add.commute)

lemma window_token [simp]: "window (s\<lparr>s_token := tk\<rparr>) = window s"
  by (simp add: window_def)

lemma scanner_ok_token [simp]: "scanner_ok (s\<lparr>s_token := tk\<rparr>) = scanner_ok s"
  by (simp add: scanner_ok_def)

lemma readLoop_eof:
  assumes "s_r s = []" and "s_err s = None"
  shows "readLoop 0 s = s\<lparr>s_err := Some EOF\<rparr>"
  using assms by (simp add: readLoop.simps [of 0 s] Read_def setErr_def Let_def)

lemma readLoop_data:
  assumes r: "s_r s \<noteq> []" and room: "s_end s < length (s_buf s)"
    and n: "n = min (length (s_buf s) - s_end s) (length (s_r s))"
  shows "readLoop 0 s =
    s\<lparr>s_r := drop n (s_r s),
      s_buf := take (s_end s) (s_buf s) @ take n (s_r s) @ drop (s_end s + n) (s_buf s),
      s_end := s_end s + n, s_empties := 0\<rparr>"
proof -
  have pos: "0 < n"
    using r room n by simp
  have "Read (s_r s) (length (s_buf s) - s_end s) = (n, None, take n (s_r s), drop n (s_r s))"
    using r n by (simp add: Read_def)
  moreover have "\<not> length (take (s_end s) (s_buf s) @ take n (s_r s) @ drop (s_end s + n) (s_buf s))
      - s_end s < n"
    using room n by (simp add: min_def)
  ultimately show ?thesis
    using pos by (simp add: readLoop.simps [of 0 s] Let_def del: length_append length_take length_drop)
qed

lemma window_after_read:
  assumes "st \<le> e" and "e \<le> length b" and "n \<le> length r"
  shows "take (e + n - st) (drop st (take e b @ take n r @ ys)) =
    take (e - st) (drop st b) @ take n r"
proof -
  have l: "length (take e b) = e" "length (take n r) = n"
    using assms by simp_all
  have "drop st (take e b @ take n r @ ys) = drop st (take e b) @ take n r @ ys"
    using assms l by simp
  moreover have "length (drop st (take e b)) = e - st"
    using l by simp
  moreover have "e + n - st = (e - st) + n"
    using assms by simp
  ultimately have "take (e + n - st) (drop st (take e b @ take n r @ ys)) =
      drop st (take e b) @ take n (take n r @ ys)"
    by (simp del: take_append drop_append length_take length_drop add: take_append [of "e - st + n"])
  also have "take n (take n r @ ys) = take n r"
    using l by simp
  also have "drop st (take e b) = take (e - st) (drop st b)"
    by (simp add: drop_take)
  finally show ?thesis .
qed

lemma readLoop_ok:
  assumes ok: "scanner_ok s" and e: "s_err s = None" and room: "s_end s < length (s_buf s)"
  shows "scanner_ok (readLoop 0 s) \<and>
    window (readLoop 0 s) @ s_r (readLoop 0 s) = window s @ s_r s"
proof (cases "s_r s = []")
  case True
  then show ?thesis
    using ok e room by (simp add: readLoop_eof scanner_ok_def window_def)
next
  case False
  define n where "n = min (length (s_buf s) - s_end s) (length (s_r s))"
  have le: "s_start s \<le> s_end s" "s_end s \<le> length (s_buf s)" "n \<le> length (s_buf s) - s_end s"
    "n \<le> length (s_r s)"
    using ok by (simp_all add: scanner_ok_def n_def)
  have w: "take (s_end s + n - s_start s)
      (drop (s_start s) (take (s_end s) (s_buf s) @ take n (s_r s) @ drop (s_end s + n) (s_buf s)))
      = take (s_end s - s_start s) (drop (s_start s) (s_buf s)) @ take n (s_r s)"
    using le by (intro window_after_read)
  show ?thesis
    using ok e le w
    by (simp add: readLoop_data [OF False room n_def] scanner_ok_def window_def
        del: take_append drop_append)
qed

lemma copy_window:
  assumes "length w \<le> length dst"
  shows "copy dst w = w @ drop (length w) dst" "length (copy dst w) = length dst"
  using assms by (simp_all add: copy_def)

lemma shift_ok:
  assumes ok: "scanner_ok s"
  shows "scanner_ok (shift s)" "window (shift s) = window s" "s_r (shift s) = s_r s"
    "s_err (shift s) = s_err s" "s_start (shift s) = 0"
    "length (s_buf (shift s)) = length (s_buf s)" "s_end (shift s) = s_end s - s_start s"
proof -
  have l: "length (window s) = s_end s - s_start s" "length (window s) \<le> length (s_buf s)"
    using ok length_window [OF ok] by (auto simp: scanner_ok_def)
  show "scanner_ok (shift s)"
    using ok l by (auto simp: shift_def scanner_ok_def copy_window(2))
  show "window (shift s) = window s"
    using l by (simp add: shift_def window_def [of "s\<lparr>s_buf := _, s_end := _, s_start := _\<rparr>"]
        copy_window(1))
  show "s_r (shift s) = s_r s" "s_err (shift s) = s_err s" "s_start (shift s) = 0"
    "s_end (shift s) = s_end s - s_start s"
    by (simp_all add: shift_def)
  show "length (s_buf (shift s)) = length (s_buf s)"
    using l by (simp add: shift_def copy_window(2))
qed

lemma grow_ok:
  assumes ok: "scanner_ok s" and small: "length (s_buf s) < MaxScanTokenSize"
  shows "scanner_ok (grow s)" "window (grow s) = window s" "s_r (grow s) = s_r s"
    "s_err (grow s) = s_err s" "s_end (grow s) < length (s_buf (grow s))"
proof -
  define newSize where
    "newSize = min (if length (s_buf s) * 2 = 0 then startBufSize else length (s_buf s) * 2)
       MaxScanTokenSize"
  have g: "grow s = s\<lparr>s_buf := copy (replicate newSize (CHR 0x00)) (window s),
      s_end := s_end s - s_start s, s_start := 0\<rparr>"
    by (simp add: grow_def Let_def newSize_def)
  have big: "length (s_buf s) < newSize" "newSize \<le> MaxScanTokenSize"
    using small by (auto simp: newSize_def startBufSize_def MaxScanTokenSize_def)
  have l: "length (window s) = s_end s - s_start s" "length (window s) \<le> length (s_buf s)"
    using ok length_window [OF ok] by (auto simp: scanner_ok_def)
  have lr: "length (window s) \<le> length (replicate newSize (CHR 0x00))"
    using l big by simp
  show "scanner_ok (grow s)"
    using ok l big by (auto simp: g scanner_ok_def copy_window(2) [OF lr])
  show "window (grow s) = window s"
    using l by (simp add: g window_def [of "s\<lparr>s_buf := _, s_end := _, s_start := _\<rparr>"]
        copy_window(1) [OF lr])
  show "s_r (grow s) = s_r s" "s_err (grow s) = s_err s"
    by (simp_all add: g)
  show "s_end (grow s) < length (s_buf (grow s))"
    using l big by (simp add: g copy_window(2) [OF lr])
qed

text \<open>
  The second part of an iteration, when no error is recorded: either the window fills a
  buffer of the maximal size and the scan stops with \<open>ErrTooLong\<close>, or more input (or
  the end of the input) has been read and the bytes ahead are the same.
\<close>

lemma fillBuffer_ok:
  assumes ok: "scanner_ok s" and e: "s_err s = None"
  shows "(\<exists>s'. fillBuffer s = Return False s' \<and> s_err s' = Some ErrTooLong \<and>
            MaxScanTokenSize \<le> length (window s)) \<or>
         (\<exists>s2. fillBuffer s = Again s2 \<and> scanner_ok s2 \<and>
            window s2 @ s_r s2 = window s @ s_r s)"
proof -
  define s1 where "s1 = (if 0 < s_start s \<and>
      (s_end s = length (s_buf s) \<or> length (s_buf s) div 2 < s_start s) then shift s else s)"
  have ne: "\<not> has_err s"
    using e by (simp add: has_err_def)
  have f: "fillBuffer s =
      (if s_end s1 = length (s_buf s1) then
         (if MaxScanTokenSize \<le> length (s_buf s1) \<or> maxInt div 2 < length (s_buf s1)
          then Return False (setErr ErrTooLong s1)
          else Again (readLoop 0 (grow s1)))
       else Again (readLoop 0 s1))"
    using ne by (simp add: fillBuffer_def s1_def Let_def)
  have ok1: "scanner_ok s1" and w1: "window s1 = window s" and r1: "s_r s1 = s_r s"
    and e1: "s_err s1 = None"
    using ok e shift_ok [OF ok] by (simp_all add: s1_def)
  have full: "s_start s1 = 0" if "s_end s1 = length (s_buf s1)"
    using that shift_ok [OF ok] by (auto simp: s1_def split: if_splits)
  show ?thesis
  proof (cases "s_end s1 = length (s_buf s1)")
    case True
    show ?thesis
    proof (cases "MaxScanTokenSize \<le> length (s_buf s1)")
      case big: True
      have "length (window s1) = length (s_buf s1)"
        using length_window [OF ok1] True full [OF True] by simp
      then show ?thesis
        using True big e1 by (simp add: f w1 [symmetric] setErr_def)
    next
      case small: False
      have nb: "\<not> maxInt div 2 < length (s_buf s1)"
        using small by (simp add: maxInt_def MaxScanTokenSize_def)
      have s: "length (s_buf s1) < MaxScanTokenSize"
        using small by simp
      have "fillBuffer s = Again (readLoop 0 (grow s1))"
        using True small nb by (simp add: f)
      moreover have "scanner_ok (readLoop 0 (grow s1)) \<and>
          window (readLoop 0 (grow s1)) @ s_r (readLoop 0 (grow s1)) =
          window (grow s1) @ s_r (grow s1)"
        using grow_ok [OF ok1 s] e1 by (intro readLoop_ok) simp_all
      ultimately show ?thesis
        using grow_ok [OF ok1 s] w1 r1 by simp
    qed
  next
    case False
    have room: "s_end s1 < length (s_buf s1)"
      using False ok1 by (simp add: scanner_ok_def)
    have "fillBuffer s = Again (readLoop 0 s1)"
      using False by (simp add: f)
    then show ?thesis
      using readLoop_ok [OF ok1 e1 room] w1 r1 by simp
  qed
qed

lemma fillBuffer_eof:
  assumes "s_err s = Some EOF"
  shows "fillBuffer s = Return False (s\<lparr>s_start := 0, s_end := 0\<rparr>)"
  using assms by (simp add: fillBuffer_def has_err_def)

subsection \<open>The token a scan delivers, from the bytes ahead\<close>

text \<open>
  The bytes ahead of the scanner are its window followed by what the reader has not
  delivered. \<open>firstChunk\<close> says what a scan makes of them: nothing when there are none,
  the bytes before the first segment separator (or all of them when there is none) when
  these are fewer than the maximal token size, and a failure otherwise.
\<close>

datatype chunk_result = NoMore | TooLong | Chunk string string

definition firstChunk :: "string \<Rightarrow> chunk_result" where
  "firstChunk bs =
     (if bs = [] then NoMore
      else
        (case Index bs SegmentSeparator of
           Some i \<Rightarrow>
             if i < MaxScanTokenSize then Chunk (take i bs) (drop (i + 1) bs) else TooLong
         | None \<Rightarrow> if length bs < MaxScanTokenSize then Chunk bs [] else TooLong))"

lemma Index_append_Some: "Index xs sep = Some i \<Longrightarrow> Index (xs @ ys) sep = Some i"
  by (induction xs arbitrary: i) (auto split: if_splits)

lemma Index_append_None:
  "Index xs sep = None \<Longrightarrow> Index (xs @ ys) sep = Some i \<Longrightarrow> length xs \<le> i"
  by (induction xs arbitrary: i) (auto split: if_splits)

lemma firstChunk_found:
  assumes "Index w SegmentSeparator = Some i" and "length w \<le> MaxScanTokenSize"
  shows "firstChunk (w @ r) = Chunk (take i w) (drop (i + 1) w @ r)"
proof -
  have "i < length w"
    using assms(1) by (rule Index_Some_less)
  then show ?thesis
    using assms Index_append_Some [OF assms(1), of r] by (auto simp: firstChunk_def)
qed

lemma firstChunk_too_long:
  assumes "Index w SegmentSeparator = None" and "MaxScanTokenSize \<le> length w"
  shows "firstChunk (w @ r) = TooLong"
proof -
  have "w @ r \<noteq> []"
    using assms(2) by (auto simp: MaxScanTokenSize_def)
  then show ?thesis
    using assms Index_append_None [OF assms(1), of r]
    by (auto simp: firstChunk_def split: option.splits)
qed

definition scan_spec :: "Scanner \<Rightarrow> bool \<Rightarrow> Scanner \<Rightarrow> bool" where
  "scan_spec s ok s' =
     (case firstChunk (window s @ s_r s) of
        NoMore \<Rightarrow> \<not> ok \<and> Err s' = None
      | TooLong \<Rightarrow> \<not> ok \<and> Err s' = Some ErrTooLong
      | Chunk c rest \<Rightarrow>
          ok \<and> Text s' = c \<and> scanner_ok s' \<and> window s' @ s_r s' = rest)"

lemma scanLoop_spec:
  "scanner_ok s \<Longrightarrow> \<exists>ok s'. scanLoop s = Some (ok, s') \<and> scan_spec s ok s'"
proof (induction s rule: scanLoop.induct)
  case (1 s)
  note ok = \<open>scanner_ok s\<close>
  have lw: "length (window s) = s_end s - s_start s" "length (window s) \<le> MaxScanTokenSize"
    using ok length_window [OF ok] by (auto simp: scanner_ok_def)
  show ?case
  proof (cases "Index (window s) SegmentSeparator")
    case (Some i)
    have il: "i < s_end s - s_start s"
      using Index_Some_less [OF Some] lw by simp
    let ?s' = "s\<lparr>s_start := s_start s + (i + 1), s_token := Some (take i (window s)),
      s_empties := 0\<rparr>"
    have "scanLoop s = Some (True, ?s')"
      by (simp add: scanLoop.simps [of s] tryToken_found [OF ok Some])
    moreover have "window ?s' = drop (i + 1) (window s)"
      using il by (intro window_advance) simp
    moreover have "scanner_ok ?s'"
      using ok il by (auto simp: scanner_ok_def)
    ultimately show ?thesis
      by (auto simp: scan_spec_def firstChunk_found [OF Some lw(2)] Text_def)
  next
    case None
    show ?thesis
    proof (cases "s_err s")
      case e: (Some err)
      then have eof: "s_err s = Some EOF" and r: "s_r s = []"
        and room: "s_end s < length (s_buf s)"
        using ok by (auto simp: scanner_ok_def)
      show ?thesis
      proof (cases "window s = []")
        case True
        obtain tk where "tryToken s = Again (s\<lparr>s_token := tk\<rparr>)"
          using tryToken_none [OF ok None] True by blast
        then have "scanLoop s = Some (False, s\<lparr>s_token := tk, s_start := 0, s_end := 0\<rparr>)"
          using eof by (simp add: scanLoop.simps [of s] fillBuffer_eof)
        then show ?thesis
          using True r eof by (auto simp: scan_spec_def firstChunk_def Err_def)
      next
        case False
        let ?s' = "s\<lparr>s_start := s_end s, s_token := Some (window s), s_empties := 0\<rparr>"
        have short: "length (window s) < MaxScanTokenSize"
          using lw room ok by (auto simp: scanner_ok_def)
        have "scanLoop s = Some (True, ?s')"
          by (simp add: scanLoop.simps [of s] tryToken_final [OF ok None False eof])
        moreover have "window ?s' = []"
          by (simp add: window_def)
        moreover have "scanner_ok ?s'"
          using ok by (auto simp: scanner_ok_def)
        ultimately show ?thesis
          using False None short r
          by (auto simp: scan_spec_def firstChunk_def Text_def)
      qed
    next
      case e: None
      obtain tk where t: "tryToken s = Again (s\<lparr>s_token := tk\<rparr>)"
        using tryToken_none [OF ok \<open>Index (window s) SegmentSeparator = None\<close>] e by blast
      let ?s1 = "s\<lparr>s_token := tk\<rparr>"
      have ok1: "scanner_ok ?s1" and e1: "s_err ?s1 = None"
        using ok e by simp_all
      from fillBuffer_ok [OF ok1 e1] show ?thesis
      proof (elim disjE exE conjE)
        fix s'
        assume f: "fillBuffer ?s1 = Return False s'" and tl: "s_err s' = Some ErrTooLong"
          and big: "MaxScanTokenSize \<le> length (window ?s1)"
        have "scanLoop s = Some (False, s')"
          by (simp add: scanLoop.simps [of s] t f)
        moreover have "firstChunk (window s @ s_r s) = TooLong"
          using big by (intro firstChunk_too_long \<open>Index (window s) SegmentSeparator = None\<close>) simp
        ultimately show ?thesis
          using tl by (auto simp: scan_spec_def Err_def)
      next
        fix s2
        assume f: "fillBuffer ?s1 = Again s2" and ok2: "scanner_ok s2"
          and same: "window s2 @ s_r s2 = window ?s1 @ s_r ?s1"
        have "scanLoop s = scanLoop s2"
          by (simp add: scanLoop.simps [of s] t f)
        moreover obtain b s' where "scanLoop s2 = Some (b, s')" "scan_spec s2 b s'"
          using "1.IH" [OF t f ok2] by blast
        ultimately show ?thesis
          using same by (auto simp: scan_spec_def)
      qed
    qed
  qed
qed

lemma Scan_spec:
  assumes "scanner_ok s"
  shows "\<exists>ok s'. Scan s = Some (ok, s') \<and> scan_spec s ok s'"
proof -
  have "scanner_ok (s\<lparr>s_scanCalled := True\<rparr>)"
    using assms by (simp add: scanner_ok_def)
  from scanLoop_spec [OF this] show ?thesis
    using assms by (auto simp: Scan_def scanner_ok_def scan_spec_def window_def)
qed

section \<open>What ParseHL7Message computes\<close>

text \<open>
  The chunks of a text: the pieces between segment separators, and the piece after the
  last separator when it is not empty.
\<close>

function chunks :: "string \<Rightarrow> string list" where
  "chunks bs =
     (if bs = [] then []
      else
        (case Index bs SegmentSeparator of
           None \<Rightarrow> [bs]
         | Some i \<Rightarrow> take i bs # chunks (drop (i + 1) bs)))"
  by pat_completeness auto
termination
  by (relation "measure length") auto

declare chunks.simps [simp del]

lemma chunks_Nil [simp]: "chunks [] = []"
  by (simp add: chunks.simps)

text \<open>The segment ParseHL7Message builds from a chunk that is not empty.\<close>

definition segmentOf :: "string \<Rightarrow> Segment" where
  "segmentOf segmentStr =
     (let fields = Split segmentStr FieldSeparator
      in \<lparr>Type = fields ! 0, Fields = drop 1 fields\<rparr>)"

definition short :: "string \<Rightarrow> bool" where
  "short c = (length c < MaxScanTokenSize)"

lemma Split_not_Nil: "Split s sep \<noteq> []"
  by (subst Split.simps) (simp split: option.splits)

lemma firstChunk_NoMore: "firstChunk bs = NoMore \<Longrightarrow> bs = []"
  by (auto simp: firstChunk_def split: if_splits option.splits)

lemma firstChunk_Chunk:
  assumes "firstChunk bs = Chunk c rest"
  shows "chunks bs = c # chunks rest" "short c" "length rest < length bs"
  using assms
  by (auto simp: firstChunk_def short_def chunks.simps [of bs] dest: Index_Some_less
      split: if_splits option.splits)

lemma firstChunk_TooLong:
  assumes "firstChunk bs = TooLong"
  shows "\<exists>c cs. chunks bs = c # cs \<and> \<not> short c"
  using assms
  by (auto simp: firstChunk_def short_def chunks.simps [of bs] dest: Index_Some_less
      split: if_splits option.splits)

definition ahead :: "Scanner \<Rightarrow> string" where
  "ahead s = window s @ s_r s"

lemma parseLoop_spec:
  "scanner_ok sc \<Longrightarrow>
   \<exists>sc' msg'. parseLoop sc msg = Inr (sc', msg') \<and>
     (if list_all short (chunks (ahead sc))
      then Err sc' = None \<and>
        msg' = msg\<lparr>Segments := Segments msg @
                 map segmentOf (filter (\<lambda>c. c \<noteq> []) (chunks (ahead sc)))\<rparr>
      else Err sc' = Some ErrTooLong)"
proof (induction "length (ahead sc)" arbitrary: sc msg rule: less_induct)
  case less
  note ok = \<open>scanner_ok sc\<close>
  obtain b s' where scan: "Scan sc = Some (b, s')" and spec: "scan_spec sc b s'"
    using Scan_spec [OF ok] by blast
  show ?case
  proof (cases "firstChunk (ahead sc)")
    case NoMore
    then have "parseLoop sc msg = Inr (s', msg)" "Err s' = None"
      using spec scan by (simp_all add: parseLoop.simps [of sc msg] scan_spec_def ahead_def)
    then show ?thesis
      using firstChunk_NoMore [OF NoMore] by simp
  next
    case TooLong
    then have "parseLoop sc msg = Inr (s', msg)" "Err s' = Some ErrTooLong"
      using spec scan by (simp_all add: parseLoop.simps [of sc msg] scan_spec_def ahead_def)
    then show ?thesis
      using firstChunk_TooLong [OF TooLong] by auto
  next
    case (Chunk c rest)
    then have b: "b" and tx: "Text s' = c" and ok': "scanner_ok s'" and a': "ahead s' = rest"
      using spec by (simp_all add: scan_spec_def ahead_def)
    note fc = firstChunk_Chunk [OF Chunk]
    have smaller: "length (ahead s') < length (ahead sc)"
      using fc(3) a' by simp
    have all: "list_all short (chunks (ahead sc)) = list_all short (chunks rest)"
      using fc by simp
    show ?thesis
    proof (cases "c = []")
      case True
      have step: "parseLoop sc msg = parseLoop s' msg"
        using scan b tx True by (simp add: parseLoop.simps [of sc msg])
      have keep: "filter (\<lambda>c. c \<noteq> []) (chunks (ahead sc)) =
          filter (\<lambda>c. c \<noteq> []) (chunks rest)"
        using fc True by simp
      obtain sc2 msg2 where "parseLoop s' msg = Inr (sc2, msg2)"
        and "if list_all short (chunks rest)
          then Err sc2 = None \<and>
            msg2 = msg\<lparr>Segments := Segments msg @
                     map segmentOf (filter (\<lambda>c. c \<noteq> []) (chunks rest))\<rparr>
          else Err sc2 = Some ErrTooLong"
        using less.hyps [OF smaller ok', of msg] unfolding a' by blast
      then show ?thesis
        unfolding step all keep
        by (intro exI [of _ sc2] exI [of _ msg2]) (simp split: if_splits)
    next
      case False
      let ?msg = "msg\<lparr>Segments := Segments msg @ [segmentOf c]\<rparr>"
      have "\<not> length (Split c FieldSeparator) < 1"
        using Split_not_Nil [of c FieldSeparator] by (cases "Split c FieldSeparator") simp_all
      then have step: "parseLoop sc msg = parseLoop s' ?msg"
        using scan b tx False
        by (simp add: parseLoop.simps [of sc msg] segmentOf_def Let_def)
      have keep: "filter (\<lambda>c. c \<noteq> []) (chunks (ahead sc)) =
          c # filter (\<lambda>c. c \<noteq> []) (chunks rest)"
        using fc False by simp
      obtain sc2 msg2 where "parseLoop s' ?msg = Inr (sc2, msg2)"
        and "if list_all short (chunks rest)
          then Err sc2 = None \<and>
            msg2 = ?msg\<lparr>Segments := Segments ?msg @
                     map segmentOf (filter (\<lambda>c. c \<noteq> []) (chunks rest))\<rparr>
          else Err sc2 = Some ErrTooLong"
        using less.hyps [OF smaller ok', of ?msg] unfolding a' by blast
      then show ?thesis
        unfolding step all keep
        by (intro exI [of _ sc2] exI [of _ msg2]) (simp split: if_splits)
    qed
  qed
qed

lemma ParseHL7Message_spec:
  "ParseHL7Message messageStr =
     (if list_all short (chunks messageStr)
      then Inr \<lparr>Segments = map segmentOf (filter (\<lambda>c. c \<noteq> []) (chunks messageStr))\<rparr>
      else Inl ErrTooLong)"
proof -
  have a: "ahead (NewScanner messageStr) = messageStr"
    by (simp add: ahead_def window_NewScanner)
  obtain sc' msg' where p: "parseLoop (NewScanner messageStr) NewHL7Message = Inr (sc', msg')"
    and r: "if list_all short (chunks messageStr)
      then Err sc' = None \<and>
        msg' = NewHL7Message\<lparr>Segments := Segments NewHL7Message @
                 map segmentOf (filter (\<lambda>c. c \<noteq> []) (chunks messageStr))\<rparr>
      else Err sc' = Some ErrTooLong"
    using parseLoop_spec [OF NewScanner_ok, of messageStr NewHL7Message] a by auto
  show ?thesis
    unfolding ParseHL7Message_def p using r by (simp add: NewHL7Message_def split: if_splits)
qed

subsection \<open>Splitting, byte by byte\<close>

lemma chunks_Cons:
  "chunks (x # xs) =
     (if x = SegmentSeparator then [] # chunks xs
      else (case chunks xs of [] \<Rightarrow> [[x]] | c # cs \<Rightarrow> (x # c) # cs))"
proof (cases "x = SegmentSeparator")
  case True
  then show ?thesis
    by (subst chunks.simps) simp
next
  case False
  show ?thesis
  proof (cases "Index xs SegmentSeparator")
    case None
    then show ?thesis
      using False by (simp add: chunks.simps [of "x # xs"] chunks.simps [of xs])
  next
    case (Some i)
    then have "xs \<noteq> []"
      by auto
    then show ?thesis
      using False Some by (simp add: chunks.simps [of "x # xs"] chunks.simps [of xs])
  qed
qed

lemma Split_Nil: "Split [] sep = [[]]"
  by (simp add: Split.simps)

lemma Split_Cons:
  "Split (x # xs) sep =
     (if x = sep then [] # Split xs sep
      else (case Split xs sep of [] \<Rightarrow> [[x]] | c # cs \<Rightarrow> (x # c) # cs))"
proof (cases "x = sep")
  case True
  then show ?thesis
    by (subst Split.simps) simp
next
  case False
  then show ?thesis
    by (cases "Index xs sep") (simp_all add: Split.simps [of "x # xs"] Split.simps [of xs])
qed

lemma chunks_append_sep:
  "SegmentSeparator \<notin> set c \<Longrightarrow> chunks (c @ SegmentSeparator # rest) = c # chunks rest"
  by (induction c) (auto simp: chunks_Cons)

lemma Split_no_sep: "sep \<notin> set c \<Longrightarrow> Split c sep = [c]"
  by (induction c) (auto simp: Split_Nil Split_Cons)

lemma Split_append_sep:
  "sep \<notin> set c \<Longrightarrow> Split (c @ sep # rest) sep = c # Split rest sep"
  by (induction c) (auto simp: Split_Cons)

lemma Split_fields:
  "sep \<notin> set t \<Longrightarrow> \<forall>f \<in> set fs. sep \<notin> set f \<Longrightarrow>
   Split (t @ concat (map (\<lambda>f. sep # f) fs)) sep = t # fs"
  by (induction fs arbitrary: t) (simp_all add: Split_no_sep Split_append_sep)

lemma Split_join:
  "hd (Split c sep) @ concat (map (\<lambda>f. sep # f) (tl (Split c sep))) = c"
proof (induction c)
  case Nil
  show ?case by (simp add: Split_Nil)
next
  case (Cons x xs)
  obtain h t where s: "Split xs sep = h # t"
    using Split_not_Nil [of xs sep] by (cases "Split xs sep") auto
  show ?case
    using Cons s by (simp add: Split_Cons)
qed

lemma segmentOf_eq: "segmentOf c = \<lparr>Type = hd (Split c FieldSeparator),
  Fields = tl (Split c FieldSeparator)\<rparr>"
proof -
  obtain h t where s: "Split c FieldSeparator = h # t"
    using Split_not_Nil [of c FieldSeparator] by (cases "Split c FieldSeparator") auto
  show ?thesis
    by (simp add: segmentOf_def s)
qed

lemma segmentText_segmentOf: "segmentText (segmentOf c) = c"
  by (simp add: segmentOf_eq segmentText_def Split_join)

lemma segmentOf_segmentText:
  fixes segment :: Segment
  assumes "FieldSeparator \<notin> set (Type segment)"
    and "\<forall>f \<in> set (Fields segment). FieldSeparator \<notin> set f"
  shows "segmentOf (segmentText segment) = segment"
  using assms by (simp add: segmentOf_eq segmentText_def Split_fields)

lemma chunks_messageText:
  "\<forall>segment \<in> set segs. SegmentSeparator \<notin> set (segmentText segment) \<Longrightarrow>
   chunks (concat (map (\<lambda>segment. segmentText segment @ [SegmentSeparator]) segs)) =
     map segmentText segs"
  by (induction segs) (simp_all add: chunks_append_sep)

lemma chunks_join:
  "bs = [] \<or> last bs = SegmentSeparator \<Longrightarrow>
   concat (map (\<lambda>c. c @ [SegmentSeparator]) (chunks bs)) = bs"
proof (induction bs rule: chunks.induct)
  case (1 bs)
  show ?case
  proof (cases "bs = []")
    case True
    then show ?thesis by simp
  next
    case False
    then have "SegmentSeparator \<in> set bs"
      using "1.prems" last_in_set [of bs] by auto
    then obtain i where i: "Index bs SegmentSeparator = Some i"
      using Index_None_iff [of bs SegmentSeparator] by (cases "Index bs SegmentSeparator") auto
    have il: "i < length bs" and at: "bs ! i = SegmentSeparator"
      using Index_Some_less [OF i] Index_Some_nth [OF i] by simp_all
    have bs: "bs = take i bs @ SegmentSeparator # drop (i + 1) bs"
      using il at id_take_nth_drop [of i bs] by simp
    have "drop (i + 1) bs = [] \<or> last (drop (i + 1) bs) = SegmentSeparator"
      using "1.prems" False by (cases "drop (i + 1) bs = []") (simp_all add: last_drop)
    then have "concat (map (\<lambda>c. c @ [SegmentSeparator]) (chunks (drop (i + 1) bs))) =
        drop (i + 1) bs"
      using "1.IH" [OF False i] by simp
    then have "concat (map (\<lambda>c. c @ [SegmentSeparator]) (chunks bs)) =
        take i bs @ SegmentSeparator # drop (i + 1) bs"
      using False i by (simp add: chunks.simps [of bs])
    then show ?thesis
      using bs by simp
  qed
qed

lemma messageText_end: "messageText m = [] \<or> last (messageText m) = SegmentSeparator"
proof (cases "Segments m" rule: rev_cases)
  case Nil
  then show ?thesis by (simp add: messageText_def)
next
  case (snoc segs segment)
  then show ?thesis by (simp add: messageText_def)
qed

subsection \<open>Evaluating ParseHL7Message on a given text\<close>

lemmas eval_parse =
  ParseHL7Message_spec chunks_Cons chunks_Nil Split_Cons Split_Nil segmentOf_eq short_def
  SegmentSeparator_def FieldSeparator_def MaxScanTokenSize_def

lemma segmentOf_not_empty:
  assumes "c \<noteq> []"
  shows "\<not> (Type (segmentOf c) = [] \<and> Fields (segmentOf c) = [])"
proof
  assume "Type (segmentOf c) = [] \<and> Fields (segmentOf c) = []"
  then have "segmentText (segmentOf c) = []"
    by (simp add: segmentText_def)
  then show False
    using assms by (simp add: segmentText_segmentOf)
qed

lemma segmentText_no_separator:
  fixes segment :: Segment
  assumes "SegmentSeparator \<notin> set (Type segment)"
    and "\<forall>field \<in> set (Fields segment). SegmentSeparator \<notin> set field"
  shows "SegmentSeparator \<notin> set (segmentText segment)"
  using assms by (auto simp: segmentText_def SegmentSeparator_def FieldSeparator_def)

lemma segmentText_not_empty:
  fixes segment :: Segment
  assumes "\<not> (Type segment = [] \<and> Fields segment = [])"
  shows "segmentText segment \<noteq> []"
  using assms by (cases "Fields segment") (auto simp: segmentText_def)

text \<open>A text with one chunk of a given length and no separator before its end.\<close>

lemma ParseHL7Message_too_long:
  assumes "SegmentSeparator \<notin> set c" and "MaxScanTokenSize \<le> length c"
  shows "ParseHL7Message (c @ SegmentSeparator # rest) = Inl ErrTooLong"
  using assms by (simp add: ParseHL7Message_spec chunks_append_sep short_def)

subsection \<open>The end of the text\<close>










section \<open>The claims\<close>

text \<open>
  C1 (as amended): for every message in which no type and no field contains a carriage
  return or a vertical bar, every segment has a non-empty type or at least one field, and
  the text of every segment (its type, then the bar and the field for each field, without
  the final carriage return) is shorter than 65536 bytes, ParseHL7Message of
  GenerateMessage succeeds and yields the message itself.
\<close>

theorem C1_round_trip:
  fixes m :: HL7Message
  assumes "\<forall>segment \<in> set (Segments m).
      CHR 0x0D \<notin> set (Type segment) \<and> CHR ''|'' \<notin> set (Type segment) \<and>
      (\<forall>field \<in> set (Fields segment). CHR 0x0D \<notin> set field \<and> CHR ''|'' \<notin> set field) \<and>
      \<not> (Type segment = [] \<and> Fields segment = []) \<and>
      length (segmentText segment) < 65536"
  shows "ParseHL7Message (GenerateMessage m) = Inr m"
proof -
  have seg: "SegmentSeparator \<notin> set (Type segment)"
      "\<forall>field \<in> set (Fields segment). SegmentSeparator \<notin> set field"
      "FieldSeparator \<notin> set (Type segment)"
      "\<forall>field \<in> set (Fields segment). FieldSeparator \<notin> set field"
      "\<not> (Type segment = [] \<and> Fields segment = [])"
      "short (segmentText segment)"
    if "segment \<in> set (Segments m)" for segment
    using assms that
    by (simp_all add: SegmentSeparator_def FieldSeparator_def short_def MaxScanTokenSize_def)
  have nosep: "\<forall>segment \<in> set (Segments m). SegmentSeparator \<notin> set (segmentText segment)"
  proof
    fix segment
    assume "segment \<in> set (Segments m)"
    then show "SegmentSeparator \<notin> set (segmentText segment)"
      using seg(1,2) [of segment] by (intro segmentText_no_separator)
  qed
  have ch: "chunks (GenerateMessage m) = map segmentText (Segments m)"
    using chunks_messageText [OF nosep] by (simp add: GenerateMessage_text messageText_def)
  have sh: "list_all short (map segmentText (Segments m))"
    using seg(6) by (simp add: list_all_iff)
  have "\<forall>c \<in> set (map segmentText (Segments m)). c \<noteq> []"
    using seg(5) segmentText_not_empty by auto
  then have ne: "filter (\<lambda>c. c \<noteq> []) (map segmentText (Segments m)) =
      map segmentText (Segments m)"
    by (simp only: filter_id_conv)
  have "map (\<lambda>segment. segmentOf (segmentText segment)) (Segments m) = Segments m"
    using seg(3,4) by (intro map_idI segmentOf_segmentText)
  then have again: "map segmentOf (map segmentText (Segments m)) = Segments m"
    by (simp add: comp_def)
  show ?thesis
    by (simp add: ParseHL7Message_spec ch sh ne again del: map_map)
qed

theorem C1_round_trip_witness:
  "ParseHL7Message (GenerateMessage
     \<lparr>Segments = [\<lparr>Type = ''MSH'', Fields = [''a'', '''', ''b^c'']\<rparr>,
                 \<lparr>Type = ''PID'', Fields = []\<rparr>,
                 \<lparr>Type = '''', Fields = [''x'']\<rparr>]\<rparr>) =
   Inr \<lparr>Segments = [\<lparr>Type = ''MSH'', Fields = [''a'', '''', ''b^c'']\<rparr>,
                    \<lparr>Type = ''PID'', Fields = []\<rparr>,
                    \<lparr>Type = '''', Fields = [''x'']\<rparr>]\<rparr>"
  using C1_round_trip [of "\<lparr>Segments = [\<lparr>Type = ''MSH'', Fields = [''a'', '''', ''b^c'']\<rparr>,
                 \<lparr>Type = ''PID'', Fields = []\<rparr>,
                 \<lparr>Type = '''', Fields = [''x'']\<rparr>]\<rparr>"]
  by (simp add: segmentText_def FieldSeparator_def)

text \<open>
  C1 as stated fails: a segment with the empty type and no field is written as a lone
  carriage return, which the parser skips; and a segment whose text has 65536 bytes or
  more makes the scanner stop with \<open>ErrTooLong\<close>.
\<close>

theorem C1_round_trip_counterexample:
  "ParseHL7Message (GenerateMessage \<lparr>Segments = [\<lparr>Type = [], Fields = []\<rparr>]\<rparr>) =
     Inr \<lparr>Segments = []\<rparr> \<and>
   ParseHL7Message (GenerateMessage
     \<lparr>Segments = [\<lparr>Type = ''OBX'', Fields = [replicate 65536 (CHR ''A'')]\<rparr>]\<rparr>) =
     Inl ErrTooLong"
proof
  show "ParseHL7Message (GenerateMessage \<lparr>Segments = [\<lparr>Type = [], Fields = []\<rparr>]\<rparr>) =
      Inr \<lparr>Segments = []\<rparr>"
    by (simp add: eval_parse GenerateMessage_text messageText_def segmentText_def)
  have t: "GenerateMessage
      \<lparr>Segments = [\<lparr>Type = ''OBX'', Fields = [replicate 65536 (CHR ''A'')]\<rparr>]\<rparr> =
      (''OBX|'' @ replicate 65536 (CHR ''A'')) @ SegmentSeparator # []"
    by (simp add: GenerateMessage_text messageText_def segmentText_def FieldSeparator_def)
  show "ParseHL7Message (GenerateMessage
      \<lparr>Segments = [\<lparr>Type = ''OBX'', Fields = [replicate 65536 (CHR ''A'')]\<rparr>]\<rparr>) =
      Inl ErrTooLong"
    unfolding t
    by (rule ParseHL7Message_too_long) (simp_all add: SegmentSeparator_def MaxScanTokenSize_def)
qed

text \<open>
  C2 (as amended): for every message whose serialized text has no empty chunk (it does
  not begin with a carriage return and has no two carriage returns in a row) and no chunk
  of 65536 bytes or more, ParseHL7Message of GenerateMessage succeeds, and GenerateMessage
  of the parsed message is the serialized text again.
\<close>

theorem C2_reserialization:
  assumes "\<forall>c \<in> set (chunks (GenerateMessage m)). c \<noteq> [] \<and> length c < 65536"
  shows "\<exists>m'. ParseHL7Message (GenerateMessage m) = Inr m' \<and>
    GenerateMessage m' = GenerateMessage m"
proof -
  let ?cs = "chunks (GenerateMessage m)"
  have sh: "list_all short ?cs"
    using assms by (simp add: list_all_iff short_def MaxScanTokenSize_def)
  have ne: "filter (\<lambda>c. c \<noteq> []) ?cs = ?cs"
    using assms by (simp add: filter_id_conv)
  have p: "ParseHL7Message (GenerateMessage m) = Inr \<lparr>Segments = map segmentOf ?cs\<rparr>"
    by (simp add: ParseHL7Message_spec sh ne)
  have "GenerateMessage \<lparr>Segments = map segmentOf ?cs\<rparr> =
      concat (map (\<lambda>c. c @ [SegmentSeparator]) ?cs)"
    by (simp add: GenerateMessage_text messageText_def comp_def segmentText_segmentOf)
  also have "\<dots> = GenerateMessage m"
    using messageText_end [of m] by (intro chunks_join) (simp add: GenerateMessage_text)
  finally show ?thesis
    using p by simp
qed

theorem C2_reserialization_witness:
  "\<exists>m'. ParseHL7Message (GenerateMessage
       \<lparr>Segments = [\<lparr>Type = ''MSH'', Fields = [''a|b'', '''']\<rparr>,
                   \<lparr>Type = ''PID'', Fields = [''c'' @ [CHR 0x0D] @ ''OBX'']\<rparr>]\<rparr>) = Inr m' \<and>
     GenerateMessage m' = GenerateMessage
       \<lparr>Segments = [\<lparr>Type = ''MSH'', Fields = [''a|b'', '''']\<rparr>,
                   \<lparr>Type = ''PID'', Fields = [''c'' @ [CHR 0x0D] @ ''OBX'']\<rparr>]\<rparr>"
  using C2_reserialization [of
      "\<lparr>Segments = [\<lparr>Type = ''MSH'', Fields = [''a|b'', '''']\<rparr>,
                   \<lparr>Type = ''PID'', Fields = [''c'' @ [CHR 0x0D] @ ''OBX'']\<rparr>]\<rparr>"]
  by (simp add: GenerateMessage_text messageText_def segmentText_def chunks_Cons
      SegmentSeparator_def FieldSeparator_def)

text \<open>
  C2 as stated fails: the lone carriage return written for a segment with the empty type
  and no field is skipped by the parser, so the text written again is empty; and a
  segment whose text has 65536 bytes or more makes the scanner stop with \<open>ErrTooLong\<close>.
\<close>

theorem C2_reserialization_counterexample:
  "ParseHL7Message (GenerateMessage \<lparr>Segments = [\<lparr>Type = [], Fields = []\<rparr>]\<rparr>) =
     Inr \<lparr>Segments = []\<rparr> \<and>
   GenerateMessage \<lparr>Segments = []\<rparr> \<noteq>
     GenerateMessage \<lparr>Segments = [\<lparr>Type = [], Fields = []\<rparr>]\<rparr> \<and>
   ParseHL7Message (GenerateMessage
     \<lparr>Segments = [\<lparr>Type = replicate 65536 (CHR ''A''), Fields = []\<rparr>]\<rparr>) = Inl ErrTooLong"
proof (intro conjI)
  show "ParseHL7Message (GenerateMessage \<lparr>Segments = [\<lparr>Type = [], Fields = []\<rparr>]\<rparr>) =
      Inr \<lparr>Segments = []\<rparr>"
    by (simp add: eval_parse GenerateMessage_text messageText_def segmentText_def)
  show "GenerateMessage \<lparr>Segments = []\<rparr> \<noteq>
      GenerateMessage \<lparr>Segments = [\<lparr>Type = [], Fields = []\<rparr>]\<rparr>"
    by (simp add: GenerateMessage_text messageText_def segmentText_def)
  have t: "GenerateMessage \<lparr>Segments = [\<lparr>Type = replicate 65536 (CHR ''A''), Fields = []\<rparr>]\<rparr> =
      replicate 65536 (CHR ''A'') @ SegmentSeparator # []"
    by (simp add: GenerateMessage_text messageText_def segmentText_def)
  show "ParseHL7Message (GenerateMessage
      \<lparr>Segments = [\<lparr>Type = replicate 65536 (CHR ''A''), Fields = []\<rparr>]\<rparr>) = Inl ErrTooLong"
    unfolding t
    by (rule ParseHL7Message_too_long) (simp_all add: SegmentSeparator_def MaxScanTokenSize_def)
qed

text \<open>
  C3: GenerateMessage has no error path (it is a total function of the message), and its
  output is exactly the concatenation, in segment order, of each segment's type, followed
  by the field separator and the field for each of the segment's fields in order,
  followed by one segment separator after the last field, and nothing else.
\<close>

theorem C3_GenerateMessage_output:
  "GenerateMessage m =
     concat (map
       (\<lambda>segment.
          Type segment @
          concat (map (\<lambda>field. FieldSeparator # field) (Fields segment)) @
          [SegmentSeparator])
       (Segments m))"
  by (simp add: GenerateMessage_text messageText_def segmentText_def)

text \<open>
  C4: the branch of ParseHL7Message that returns the error "invalid segment format" is
  unreachable: splitting a chunk at the field separator never gives fewer than one
  token, and ParseHL7Message returns this error for no input.
\<close>

theorem C4_format_error_unreachable:
  "\<not> length (Split segmentStr FieldSeparator) < 1 \<and>
   ParseHL7Message messageStr \<noteq> Inl InvalidSegmentFormat"
proof
  show "\<not> length (Split segmentStr FieldSeparator) < 1"
    using Split_not_Nil [of segmentStr FieldSeparator]
    by (cases "Split segmentStr FieldSeparator") simp_all
  show "ParseHL7Message messageStr \<noteq> Inl InvalidSegmentFormat"
    by (simp add: ParseHL7Message_spec)
qed

text \<open>
  C5: ParseHL7Message on the empty string succeeds and yields a message with zero
  segments.
\<close>

theorem C5_parse_empty: "ParseHL7Message [] = Inr \<lparr>Segments = []\<rparr>"
  by (simp add: eval_parse)

text \<open>
  C6: ParseHL7Message on \<open>MSH|a|b\<close>, two carriage returns, \<open>PID|c\<close> and a carriage
  return succeeds and yields exactly two segments, \<open>MSH\<close> with the fields \<open>a\<close> and \<open>b\<close>
  and \<open>PID\<close> with the field \<open>c\<close>: the consecutive separators give no empty segment.
\<close>

theorem C6_separator_tolerance:
  "ParseHL7Message (''MSH|a|b'' @ [CHR 0x0D, CHR 0x0D] @ ''PID|c'' @ [CHR 0x0D]) =
     Inr \<lparr>Segments = [\<lparr>Type = ''MSH'', Fields = [''a'', ''b'']\<rparr>,
                      \<lparr>Type = ''PID'', Fields = [''c'']\<rparr>]\<rparr>"
  by (simp add: eval_parse)




text \<open>
  C8: ParseHL7Message on \<open>ABC\<close>, a chunk with no field separator, succeeds and yields
  exactly one segment, of type \<open>ABC\<close> with no fields.
\<close>

theorem C8_type_only: "ParseHL7Message ''ABC'' = Inr \<lparr>Segments = [\<lparr>Type = ''ABC'', Fields = []\<rparr>]\<rparr>"
  by (simp add: eval_parse)

text \<open>
  C9: the message built by AddSegment with \<open>MSH\<close> and the fields \<open>^~\&\<close>, \<open>APP\<close>, \<open>FAC\<close>,
  then AddSegment with \<open>PID\<close> and the fields empty, \<open>123\<close>, empty, empty, \<open>Doe^John\<close>,
  serialized and parsed again, gives the two segments back with their types and fields,
  and the field of index 4 of the second segment is \<open>Doe^John\<close>.
\<close>

theorem C9_end_to_end:
  "ParseHL7Message (GenerateMessage
     (AddSegment
        (AddSegment NewHL7Message ''MSH''
           [[CHR ''^'', CHR ''~'', CHR 0x5C, CHR ''&''], ''APP'', ''FAC''])
        ''PID'' ['''', ''123'', '''', '''', ''Doe^John''])) =
     Inr \<lparr>Segments =
       [\<lparr>Type = ''MSH'', Fields = [[CHR ''^'', CHR ''~'', CHR 0x5C, CHR ''&''], ''APP'', ''FAC'']\<rparr>,
        \<lparr>Type = ''PID'', Fields = ['''', ''123'', '''', '''', ''Doe^John'']\<rparr>]\<rparr> \<and>
   AddSegment
     (AddSegment NewHL7Message ''MSH''
        [[CHR ''^'', CHR ''~'', CHR 0x5C, CHR ''&''], ''APP'', ''FAC''])
     ''PID'' ['''', ''123'', '''', '''', ''Doe^John''] =
     \<lparr>Segments =
       [\<lparr>Type = ''MSH'', Fields = [[CHR ''^'', CHR ''~'', CHR 0x5C, CHR ''&''], ''APP'', ''FAC'']\<rparr>,
        \<lparr>Type = ''PID'', Fields = ['''', ''123'', '''', '''', ''Doe^John'']\<rparr>]\<rparr> \<and>
   (case ParseHL7Message (GenerateMessage
      (AddSegment
         (AddSegment NewHL7Message ''MSH''
            [[CHR ''^'', CHR ''~'', CHR 0x5C, CHR ''&''], ''APP'', ''FAC''])
         ''PID'' ['''', ''123'', '''', '''', ''Doe^John''])) of
      Inl e \<Rightarrow> False
    | Inr message \<Rightarrow> Fields (Segments message ! 1) ! 4 = ''Doe^John'')"
  by (simp add: eval_parse GenerateMessage_text messageText_def segmentText_def
      AddSegment_def NewHL7Message_def)

text \<open>
  C10: every segment of the message a successful ParseHL7Message returns has a non-empty
  type or a non-empty list of fields: no segment has both the empty type and no field.
\<close>

theorem C10_no_empty_segment:
  assumes "ParseHL7Message messageStr = Inr message"
    and "segment \<in> set (Segments message)"
  shows "\<not> (Type segment = [] \<and> Fields segment = [])"
proof -
  have "message = \<lparr>Segments = map segmentOf (filter (\<lambda>c. c \<noteq> []) (chunks messageStr))\<rparr>"
    using assms(1) by (simp add: ParseHL7Message_spec split: if_splits)
  then obtain c where "c \<noteq> []" and "segment = segmentOf c"
    using assms(2) by auto
  then show ?thesis
    using segmentOf_not_empty by simp
qed

theorem C10_no_empty_segment_witness:
  "ParseHL7Message ''|'' = Inr \<lparr>Segments = [\<lparr>Type = '''', Fields = ['''']\<rparr>]\<rparr> \<and>
   \<not> (Type \<lparr>Type = '''', Fields = ['''']\<rparr> = [] \<and> Fields \<lparr>Type = '''', Fields = ['''']\<rparr> = [])"
proof -
  have p: "ParseHL7Message ''|'' = Inr \<lparr>Segments = [\<lparr>Type = '''', Fields = ['''']\<rparr>]\<rparr>"
    by (simp add: eval_parse)
  have "\<lparr>Type = '''', Fields = ['''']\<rparr> \<in> set (Segments \<lparr>Segments = [\<lparr>Type = '''', Fields = ['''']\<rparr>]\<rparr>)"
    by simp
  from C10_no_empty_segment [OF p this] p show ?thesis
    by simp
qed

end
